theory Spec2Isabelle
  imports Main "HOL-Library.Sublist"
begin

section \<open>The model tree: objects in a store\<close>

text \<open>
  The engine's model tree is a graph of mutable JavaScript objects: every node holds a
  reference to its parent, and every container holds the ordered list of references to
  its children. The two directions are stored independently, so they can disagree (the
  source calls that a broken tree). The embedding therefore keeps an explicit store from
  references to objects; reference equality of the source (\<open>==\<close> on objects) is equality
  of references. Every reference denotes an object, since a JavaScript reference cannot
  dangle.
\<close>

type_synonym ref = nat

text \<open>Attribute values are arbitrary JavaScript values; \<open>undefined\<close> is one of them.\<close>

datatype jsvalue = Undefined | Null | Bool bool | Number int | Str string

text \<open>
  A JavaScript \<open>Map\<close> with string keys: the entries in insertion order, one per key.
\<close>

type_synonym jsmap = "(string \<times> jsvalue) list"

text \<open>
  One object of the tree. \<open>parent\<close> and \<open>attrs\<close> are the two fields the \<open>Node\<close>
  constructor sets. The other three fields are state of the classes around \<open>Node\<close>
  that its accessors read through \<open>this.parent\<close> and \<open>this.root\<close>: the child list of
  a container (\<open>Element\<close>, \<open>DocumentFragment\<close>), the character data of a text node, and
  the \<open>document\<close> property that a root element carries (a \<open>DocumentFragment\<close> and a
  plain node have none).
\<close>

record node =
  parent :: "ref option"
  attrs :: jsmap
  children :: "ref list"
  data :: "string option"
  ownDocument :: "ref option"

type_synonym store = "ref \<Rightarrow> node"

datatype error = CKEditorError string

section \<open>Collaborators of \<open>Node\<close> outside the excerpt\<close>

text \<open>\<open>Map.prototype.has\<close>, \<open>get\<close> and \<open>set\<close> of the JavaScript language.\<close>

fun Map_has :: "jsmap \<Rightarrow> string \<Rightarrow> bool" where
  "Map_has [] k = False"
| "Map_has ((k', v) # m) k = (if k' = k then True else Map_has m k)"

fun Map_get :: "jsmap \<Rightarrow> string \<Rightarrow> jsvalue" where
  "Map_get [] k = Undefined"
| "Map_get ((k', v) # m) k = (if k' = k then v else Map_get m k)"

text \<open>
  \<open>set\<close> overwrites the value of a key that is present, keeping its place in the
  iteration order, and appends a new key at the end.
\<close>

fun Map_set :: "jsmap \<Rightarrow> string \<Rightarrow> jsvalue \<Rightarrow> jsmap" where
  "Map_set [] k v = [(k, v)]"
| "Map_set ((k', v') # m) k v = (if k' = k then (k, v) # m else (k', v') # Map_set m k v)"

text \<open>
  Modelled from the spec: \<open>toMap\<close> of the utils package is not part of the excerpt. The
  constructor's documentation says it accepts what the native \<open>Map\<close> constructor accepts,
  and the spec calls the attributes a mapping with unique keys whose order is preserved
  for serialization: the entries are \<open>set\<close> one after the other into an empty map; no
  argument (\<open>undefined\<close>) gives the empty map.
\<close>

definition toMap :: "(string \<times> jsvalue) list option \<Rightarrow> jsmap" where
  "toMap a = (case a of None \<Rightarrow> [] | Some ps \<Rightarrow> fold (\<lambda>(k, v) m. Map_set m k v) ps [])"

text \<open>
  Modelled from the spec: the text node, which is not part of the excerpt, overrides
  \<open>offsetSize\<close> with the length of its text. The getter of \<open>Node\<close> itself returns \<open>1\<close>.
\<close>

definition offsetSize :: "store \<Rightarrow> ref \<Rightarrow> nat" where
  "offsetSize h n = (case data (h n) of None \<Rightarrow> 1 | Some s \<Rightarrow> length s)"

text \<open>
  Modelled from the spec: the child lookups of the container (\<open>getChildIndex\<close>,
  \<open>getChildStartOffset\<close>, \<open>getChild\<close>) are not part of the excerpt. By the spec the index
  is the position among the parent's children and the start offset is the sum of
  \<open>offsetSize\<close> of the preceding siblings; the accessors of \<open>Node\<close> compare the results
  with \<open>null\<close>, which is the answer for a node that is not a child. \<open>indexOf\<close> is the
  search behind them: the first position of the node in the list.
\<close>

fun indexOf :: "ref list \<Rightarrow> ref \<Rightarrow> nat option" where
  "indexOf [] n = None"
| "indexOf (c # cs) n = (if c = n then Some 0 else map_option Suc (indexOf cs n))"

text \<open>
  Modelled from the spec: \<open>getChildIndex\<close> of the container, missing from the excerpt; the
  position of the node among the children, \<open>null\<close> for a node that is not a child.
\<close>

definition getChildIndex :: "store \<Rightarrow> ref \<Rightarrow> ref \<Rightarrow> nat option" where
  "getChildIndex h p n = indexOf (children (h p)) n"

text \<open>
  Modelled from the spec: \<open>getChildStartOffset\<close> of the container, missing from the
  excerpt; the sum of \<open>offsetSize\<close> of the children before the node, \<open>null\<close> for a node
  that is not a child.
\<close>

definition getChildStartOffset :: "store \<Rightarrow> ref \<Rightarrow> ref \<Rightarrow> nat option" where
  "getChildStartOffset h p n =
     (case getChildIndex h p n of
        None \<Rightarrow> None
      | Some i \<Rightarrow> Some (sum_list (map (offsetSize h) (take i (children (h p))))))"

text \<open>
  Modelled from the spec: \<open>getChild\<close> of the container, missing from the excerpt; child
  lookup by index. An index outside the child list (\<open>-1\<close> for the predecessor of the first
  child) gives \<open>null\<close>, which is what the sibling getters of \<open>Node\<close> expect.
\<close>

definition getChild :: "store \<Rightarrow> ref \<Rightarrow> int \<Rightarrow> ref option" where
  "getChild h p i =
     (if 0 \<le> i \<and> nat i < length (children (h p)) then Some (children (h p) ! nat i) else None)"

section \<open>\<open>Node\<close>\<close>

text \<open>
  The constructor. A fresh node has no parent; the fields of the surrounding classes
  start empty.
\<close>

definition Node :: "(string \<times> jsvalue) list option \<Rightarrow> node" where
  "Node a = \<lparr>parent = None, attrs = toMap a, children = [], data = None, ownDocument = None\<rparr>"

definition not_found_in_parent :: string where
  "not_found_in_parent =
     ''model-node-not-found-in-parent: The node's parent does not contain this node.''"

text \<open>
  A getter returns \<open>Inl\<close> of the error it throws, or \<open>Inr\<close> of its value; \<open>None\<close> as a
  value is JavaScript's \<open>null\<close>.
\<close>

definition index :: "store \<Rightarrow> ref \<Rightarrow> error + nat option" where
  "index h n =
     (case parent (h n) of
        None \<Rightarrow> Inr None
      | Some p \<Rightarrow>
          (case getChildIndex h p n of
             None \<Rightarrow> Inl (CKEditorError not_found_in_parent)
           | Some pos \<Rightarrow> Inr (Some pos)))"

definition startOffset :: "store \<Rightarrow> ref \<Rightarrow> error + nat option" where
  "startOffset h n =
     (case parent (h n) of
        None \<Rightarrow> Inr None
      | Some p \<Rightarrow>
          (case getChildStartOffset h p n of
             None \<Rightarrow> Inl (CKEditorError not_found_in_parent)
           | Some pos \<Rightarrow> Inr (Some pos)))"

text \<open>In the sum \<open>this.startOffset + this.offsetSize\<close> a \<open>null\<close> would count as \<open>0\<close>.\<close>

definition endOffset :: "store \<Rightarrow> ref \<Rightarrow> error + nat option" where
  "endOffset h n =
     (case parent (h n) of
        None \<Rightarrow> Inr None
      | Some p \<Rightarrow>
          (case startOffset h n of
             Inl e \<Rightarrow> Inl e
           | Inr None \<Rightarrow> Inr (Some (0 + offsetSize h n))
           | Inr (Some s) \<Rightarrow> Inr (Some (s + offsetSize h n))))"

text \<open>
  \<open>(index !== null && this.parent.getChild(index + 1)) || null\<close>: the index is read
  first and may throw; an index that is not \<open>null\<close> means that there is a parent.
\<close>

definition nextSibling :: "store \<Rightarrow> ref \<Rightarrow> error + ref option" where
  "nextSibling h n =
     (case index h n of
        Inl e \<Rightarrow> Inl e
      | Inr None \<Rightarrow> Inr None
      | Inr (Some i) \<Rightarrow>
          (case parent (h n) of
             None \<Rightarrow> Inr None
           | Some p \<Rightarrow> Inr (getChild h p (int i + 1))))"

definition previousSibling :: "store \<Rightarrow> ref \<Rightarrow> error + ref option" where
  "previousSibling h n =
     (case index h n of
        Inl e \<Rightarrow> Inl e
      | Inr None \<Rightarrow> Inr None
      | Inr (Some i) \<Rightarrow>
          (case parent (h n) of
             None \<Rightarrow> Inr None
           | Some p \<Rightarrow> Inr (getChild h p (int i - 1))))"

text \<open>
  The loops over the parent chain do not end on a store whose parent references form a
  cycle; they are partial functions, and \<open>None\<close> is "does not return".
\<close>

partial_function (option) root :: "store \<Rightarrow> ref \<Rightarrow> ref option" where
  "root h n = (case parent (h n) of None \<Rightarrow> Some n | Some p \<Rightarrow> root h p)"

text \<open>
  The getter \<open>document\<close> of \<open>Node\<close>. \<open>this.root.document || null\<close> reads the property on
  the root: the root is a root element with a document of its own, or an object for
  which the property is this getter again (\<open>null\<close>, the object being its own root) or is
  missing (a document fragment).
\<close>

definition Node_document :: "store \<Rightarrow> ref \<Rightarrow> ref option option" where
  "Node_document h n =
     (case root h n of
        None \<Rightarrow> None
      | Some r \<Rightarrow> if r = n then Some None else Some (ownDocument (h r)))"

text \<open>
  Modelled from the spec: the root element, missing from the excerpt, stores a reference
  to the document that owns it and answers it as its own \<open>document\<close> property, which is
  what the getter of \<open>Node\<close> reads at the root. The value of \<open>n.document\<close> is that
  reference on an object that carries one and the result of the getter of \<open>Node\<close> on
  every other object.
\<close>

definition document :: "store \<Rightarrow> ref \<Rightarrow> ref option option" where
  "document h n =
     (case ownDocument (h n) of
        Some d \<Rightarrow> Some (Some d)
      | None \<Rightarrow> Node_document h n)"

definition clone :: "store \<Rightarrow> ref \<Rightarrow> node" where
  "clone h n = Node (Some (attrs (h n)))"

text \<open>
  \<open>getPath\<close>: \<open>path.unshift(node.startOffset)\<close> puts the value read in front of the
  path; reading \<open>startOffset\<close> may throw, which ends the loop.
\<close>

partial_function (option) getPath_loop ::
  "store \<Rightarrow> ref \<Rightarrow> nat option list \<Rightarrow> (error + nat option list) option" where
  "getPath_loop h node path =
     (case parent (h node) of
        None \<Rightarrow> Some (Inr path)
      | Some p \<Rightarrow>
          (case startOffset h node of
             Inl e \<Rightarrow> Some (Inl e)
           | Inr v \<Rightarrow> getPath_loop h p (v # path)))"

definition getPath :: "store \<Rightarrow> ref \<Rightarrow> (error + nat option list) option" where
  "getPath h n = getPath_loop h n []"

text \<open>The options object; a missing option reads as \<open>undefined\<close>, which is false.\<close>

record options =
  includeSelf :: bool
  parentFirst :: bool

definition default_options :: options where
  "default_options = \<lparr>includeSelf = False, parentFirst = False\<rparr>"

partial_function (option) getAncestors_loop ::
  "store \<Rightarrow> options \<Rightarrow> ref option \<Rightarrow> ref list \<Rightarrow> ref list option" where
  "getAncestors_loop h opts par ancestors =
     (case par of
        None \<Rightarrow> Some ancestors
      | Some p \<Rightarrow>
          getAncestors_loop h opts (parent (h p))
            (if parentFirst opts then ancestors @ [p] else p # ancestors))"

definition getAncestors :: "store \<Rightarrow> options \<Rightarrow> ref \<Rightarrow> ref list option" where
  "getAncestors h opts n =
     getAncestors_loop h opts (if includeSelf opts then Some n else parent (h n)) []"

text \<open>
  \<open>getCommonAncestor\<close>: reading an array past its end gives \<open>undefined\<close>, here \<open>None\<close>;
  the loop runs while both entries are the same and the entry exists. The options are
  handed to \<open>getAncestors\<close> as they came.
\<close>

definition at :: "ref list \<Rightarrow> nat \<Rightarrow> ref option" where
  "at xs i = (if i < length xs then Some (xs ! i) else None)"

function common_loop :: "ref list \<Rightarrow> ref list \<Rightarrow> nat \<Rightarrow> nat" where
  "common_loop ancestorsA ancestorsB i =
     (if at ancestorsA i = at ancestorsB i \<and> at ancestorsA i \<noteq> None
      then common_loop ancestorsA ancestorsB (i + 1) else i)"
  by pat_completeness auto
termination
  by (relation "measure (\<lambda>(a, b, i). length a - i)") (auto simp: at_def split: if_splits)

declare common_loop.simps [simp del]

definition getCommonAncestor :: "store \<Rightarrow> ref \<Rightarrow> ref \<Rightarrow> options \<Rightarrow> ref option option" where
  "getCommonAncestor h this node opts =
     (case getAncestors h opts this of
        None \<Rightarrow> None
      | Some ancestorsA \<Rightarrow>
          (case getAncestors h opts node of
             None \<Rightarrow> None
           | Some ancestorsB \<Rightarrow>
               (let i = common_loop ancestorsA ancestorsB 0
                in Some (if i = 0 then None else at ancestorsA (i - 1)))))"

definition hasAttribute :: "store \<Rightarrow> ref \<Rightarrow> string \<Rightarrow> bool" where
  "hasAttribute h n key = Map_has (attrs (h n)) key"

definition getAttribute :: "store \<Rightarrow> ref \<Rightarrow> string \<Rightarrow> jsvalue" where
  "getAttribute h n key = Map_get (attrs (h n)) key"

definition getAttributes :: "store \<Rightarrow> ref \<Rightarrow> (string \<times> jsvalue) list" where
  "getAttributes h n = attrs (h n)"

definition getAttributeKeys :: "store \<Rightarrow> ref \<Rightarrow> string list" where
  "getAttributeKeys h n = map fst (attrs (h n))"

text \<open>\<open>_setAttribute\<close> changes the node's map in place: the store is returned updated.\<close>

definition setAttribute :: "store \<Rightarrow> ref \<Rightarrow> string \<Rightarrow> jsvalue \<Rightarrow> store" where
  "setAttribute h n key v = h(n := (h n)\<lparr>attrs := Map_set (attrs (h n)) key v\<rparr>)"

definition setAttributesTo :: "store \<Rightarrow> ref \<Rightarrow> (string \<times> jsvalue) list option \<Rightarrow> store" where
  "setAttributesTo h n a = h(n := (h n)\<lparr>attrs := toMap a\<rparr>)"

text \<open>
  \<open>toJSON\<close>: the object has the key \<open>attributes\<close> or not; with it come the map's entries.
\<close>

record json =
  attributes :: "(string \<times> jsvalue) list option"

definition toJSON :: "store \<Rightarrow> ref \<Rightarrow> json" where
  "toJSON h n =
     \<lparr>attributes = (if length (attrs (h n)) \<noteq> 0 then Some (attrs (h n)) else None)\<rparr>"

section \<open>Notions of the specification\<close>

text \<open>
  \<open>depth_of h n d\<close>: following the parent references from \<open>n\<close> reaches an object
  without parent, the root of \<open>n\<close>, after exactly \<open>d\<close> steps.
\<close>

inductive depth_of :: "store \<Rightarrow> ref \<Rightarrow> nat \<Rightarrow> bool" where
  at_root: "parent (h n) = None \<Longrightarrow> depth_of h n 0"
| below: "parent (h n) = Some p \<Longrightarrow> depth_of h p d \<Longrightarrow> depth_of h n (Suc d)"

code_pred depth_of .

text \<open>
  The first \<open>d + 1\<close> objects of the parent chain of \<open>n\<close>, \<open>n\<close> itself first; for a node at
  depth \<open>d\<close> this is the chain up to the root.
\<close>

fun ancestry :: "store \<Rightarrow> ref \<Rightarrow> nat \<Rightarrow> ref list" where
  "ancestry h n 0 = [n]"
| "ancestry h n (Suc d) = n # (case parent (h n) of None \<Rightarrow> [] | Some p \<Rightarrow> ancestry h p d)"

text \<open>
  Reading a sequence of getters from its last entry to its first: the first one that
  throws decides, otherwise the values come back in the order of the sequence.
\<close>

fun read_all :: "(error + 'a) list \<Rightarrow> error + 'a list" where
  "read_all [] = Inr []"
| "read_all (r # rs) =
     (case read_all rs of
        Inl e \<Rightarrow> Inl e
      | Inr vs \<Rightarrow> (case r of Inl e \<Rightarrow> Inl e | Inr v \<Rightarrow> Inr (v # vs)))"

text \<open>
  A chain that starts at a root and goes down: the entry at position \<open>j\<close> has depth \<open>j\<close>
  and is the parent of the next entry.
\<close>

definition root_path :: "store \<Rightarrow> ref list \<Rightarrow> bool" where
  "root_path h xs \<longleftrightarrow>
     (\<forall>j<length xs. depth_of h (xs ! j) j)
   \<and> (\<forall>j<length xs - 1. parent (h (xs ! Suc j)) = Some (xs ! j))"

text \<open>A node is attached when its parent, if it has one, lists it among its children.\<close>

definition attached :: "store \<Rightarrow> ref \<Rightarrow> bool" where
  "attached h n = (case parent (h n) of None \<Rightarrow> True | Some p \<Rightarrow> n \<in> set (children (h p)))"

section \<open>Example stores\<close>

definition elem :: "ref option \<Rightarrow> ref list \<Rightarrow> node" where
  "elem p cs = \<lparr>parent = p, attrs = [], children = cs, data = None, ownDocument = None\<rparr>"

definition textNode :: "ref option \<Rightarrow> string \<Rightarrow> node" where
  "textNode p s = \<lparr>parent = p, attrs = [], children = [], data = Some s, ownDocument = None\<rparr>"

text \<open>
  The tree of the example in the documentation of \<open>getPath\<close>: \<open>div\<close> (0) holds \<open>h1\<close> (1)
  and \<open>p\<close> (2); \<open>h1\<close> holds the text \<open>header\<close> (3); \<open>p\<close> holds the texts \<open>abc\<close> (4) and
  \<open>foo\<close> (5). Every other reference is a fresh node on its own.
\<close>

definition doc_tree :: store where
  "doc_tree = (\<lambda>_. Node None)
     (0 := elem None [1, 2],
      1 := elem (Some 0) [3],
      2 := elem (Some 0) [4, 5],
      3 := textNode (Some 1) ''header'',
      4 := textNode (Some 2) ''abc'',
      5 := textNode (Some 2) ''foo'')"

text \<open>A broken tree: node 1 names 0 as its parent, and 0 has no children.\<close>

definition broken_tree :: store where
  "broken_tree = (\<lambda>_. Node None)(0 := elem None [], 1 := elem (Some 0) [])"

text \<open>A store whose node 0 was constructed with two attributes.\<close>

definition attr_store :: store where
  "attr_store = (\<lambda>_. Node None)
     (0 := Node (Some [(''bold'', Bool True), (''linkHref'', Str ''x'')]))"

text \<open>
  A root element (0) that belongs to the document 9, with one child element (1).
\<close>

definition rooted :: store where
  "rooted = (\<lambda>_. Node None)
     (0 := (elem None [1])\<lparr>ownDocument := Some 9\<rparr>,
      1 := elem (Some 0) [])"

section \<open>Detached nodes and roots\<close>

lemma root_no_parent: "parent (h n) = None \<Longrightarrow> root h n = Some n"
  by (subst root.simps) simp

text \<open>
  The property of the root is the same whether it is read on the root or, through the
  getter of \<open>Node\<close>, on a node below it.
\<close>

lemma document_below_root:
  assumes "root h n = Some r" and "r \<noteq> n" and "parent (h r) = None"
    and "ownDocument (h n) = None"
  shows "document h n = document h r"
proof -
  from assms(1,2,4) have "document h n = Some (ownDocument (h r))"
    by (simp add: document_def Node_document_def)
  moreover from assms(3) have "document h r = Some (ownDocument (h r))"
    by (cases "ownDocument (h r)") (simp_all add: document_def Node_document_def root_no_parent)
  ultimately show ?thesis by simp
qed

text \<open>
  C9, as stated, fails for \<open>document\<close>: a root element has no parent and its \<open>document\<close>
  is the document that owns it, not \<open>null\<close>.
\<close>

theorem no_parent_document_counterexample:
  "parent (rooted 0) = None \<and> document rooted 0 = Some (Some 9)
   \<and> document rooted 0 \<noteq> Some None"
  by (simp add: rooted_def elem_def document_def)

text \<open>
  C9, amended. A node without a parent: \<open>index\<close>, \<open>startOffset\<close>, \<open>endOffset\<close>,
  \<open>nextSibling\<close> and \<open>previousSibling\<close> return \<open>null\<close> and none of them throws; \<open>root\<close>
  returns the node itself; \<open>document\<close> returns \<open>null\<close> unless the node is a root element
  that carries its own document, and then it returns that document.
\<close>

theorem no_parent_accessors:
  assumes "parent (h n) = None"
  shows "index h n = Inr None \<and> startOffset h n = Inr None \<and> endOffset h n = Inr None
       \<and> nextSibling h n = Inr None \<and> previousSibling h n = Inr None
       \<and> root h n = Some n
       \<and> document h n = Some (ownDocument (h n))
       \<and> (ownDocument (h n) = None \<longrightarrow> document h n = Some None)"
proof -
  from assms have "index h n = Inr None" and "startOffset h n = Inr None"
    and "endOffset h n = Inr None"
    by (simp_all add: index_def startOffset_def endOffset_def)
  moreover from assms have "nextSibling h n = Inr None" and "previousSibling h n = Inr None"
    by (simp_all add: nextSibling_def previousSibling_def index_def)
  moreover from assms have r: "root h n = Some n" by (rule root_no_parent)
  moreover from r have d: "document h n = Some (ownDocument (h n))"
    by (cases "ownDocument (h n)") (simp_all add: document_def Node_document_def)
  moreover from d have "ownDocument (h n) = None \<longrightarrow> document h n = Some None" by simp
  ultimately show ?thesis by (intro conjI)
qed

theorem no_parent_accessors_witness:
  "parent (doc_tree 0) = None \<and> ownDocument (doc_tree 0) = None
   \<and> index doc_tree 0 = Inr None \<and> startOffset doc_tree 0 = Inr None
   \<and> endOffset doc_tree 0 = Inr None \<and> nextSibling doc_tree 0 = Inr None
   \<and> previousSibling doc_tree 0 = Inr None \<and> root doc_tree 0 = Some 0
   \<and> document doc_tree 0 = Some None"
proof -
  have p: "parent (doc_tree 0) = None" and o: "ownDocument (doc_tree 0) = None"
    by (simp_all add: doc_tree_def elem_def)
  from no_parent_accessors[of doc_tree 0] p o show ?thesis by simp
qed

section \<open>Position in the parent\<close>

lemma indexOf_Some:
  "indexOf cs n = Some i \<Longrightarrow> i < length cs \<and> cs ! i = n \<and> (\<forall>j<i. cs ! j \<noteq> n)"
proof (induction cs arbitrary: i)
  case Nil
  then show ?case by simp
next
  case (Cons c cs)
  show ?case
  proof (cases "c = n")
    case True
    with Cons.prems show ?thesis by simp
  next
    case False
    with Cons.prems obtain k where k: "indexOf cs n = Some k" "i = Suc k" by auto
    from Cons.IH[OF k(1)] False k(2) show ?thesis by (auto simp: less_Suc_eq_0_disj)
  qed
qed

lemma indexOf_None: "indexOf cs n = None \<longleftrightarrow> n \<notin> set cs"
  by (induction cs) auto

lemma startOffset_null: "startOffset h n = Inr None \<Longrightarrow> parent (h n) = None"
  by (simp add: startOffset_def split: option.splits)

lemma startOffset_attached:
  "parent (h n) = Some p \<Longrightarrow> n \<in> set (children (h p)) \<Longrightarrow> \<exists>v. startOffset h n = Inr v"
  using indexOf_None[of "children (h p)" n]
  by (auto simp: startOffset_def getChildStartOffset_def getChildIndex_def split: option.splits)

text \<open>
  C1. For a node \<open>n\<close> whose parent lists it among its children, \<open>index\<close> is the position of
  \<open>n\<close> in the parent's children (the first one, should it occur twice) and \<open>startOffset\<close>
  is the sum of \<open>offsetSize\<close> over the siblings before it.
\<close>

theorem index_and_startOffset_of_child:
  assumes "parent (h n) = Some p" and "n \<in> set (children (h p))"
  shows "\<exists>i. index h n = Inr (Some i)
           \<and> i < length (children (h p)) \<and> children (h p) ! i = n
           \<and> (\<forall>j<i. children (h p) ! j \<noteq> n)
           \<and> startOffset h n = Inr (Some (sum_list (map (offsetSize h) (take i (children (h p))))))"
proof -
  from assms(2) obtain i where i: "indexOf (children (h p)) n = Some i"
    using indexOf_None[of "children (h p)" n] by auto
  from indexOf_Some[OF i] i assms(1) show ?thesis
    by (simp add: index_def startOffset_def getChildStartOffset_def getChildIndex_def)
qed

theorem index_and_startOffset_of_child_witness:
  "parent (doc_tree 5) = Some 2 \<and> 5 \<in> set (children (doc_tree 2))
   \<and> index doc_tree 5 = Inr (Some 1) \<and> startOffset doc_tree 5 = Inr (Some 3)"
proof -
  have p: "parent (doc_tree 5) = Some 2"
    by (simp add: doc_tree_def textNode_def)
  have c: "children (doc_tree 2) = [4, 5]"
    by (simp add: doc_tree_def elem_def)
  have m: "5 \<in> set (children (doc_tree 2))"
    by (simp add: c)
  have s: "offsetSize doc_tree 4 = 3"
    by (simp add: offsetSize_def doc_tree_def textNode_def)
  from index_and_startOffset_of_child[of doc_tree 5 2] p m obtain i where
    i: "index doc_tree 5 = Inr (Some i)" "i < length (children (doc_tree 2))"
       "children (doc_tree 2) ! i = 5" "\<forall>j<i. children (doc_tree 2) ! j \<noteq> 5"
       "startOffset doc_tree 5 = Inr (Some (sum_list (map (offsetSize doc_tree) (take i (children (doc_tree 2))))))"
    by blast
  from i(2,3) have "i = 1" by (auto simp: c less_Suc_eq)
  with i(1,5) p m s show ?thesis by (simp add: c)
qed

text \<open>
  C2. For a node \<open>n\<close> with a parent whose children do not contain \<open>n\<close>, reading \<open>index\<close> or
  \<open>startOffset\<close> throws an error whose message starts with the code
  \<open>model-node-not-found-in-parent\<close>; no value is returned.
\<close>

theorem not_in_parent_throws:
  assumes "parent (h n) = Some p" and "n \<notin> set (children (h p))"
  shows "\<exists>msg. index h n = Inl (CKEditorError msg) \<and> startOffset h n = Inl (CKEditorError msg)
           \<and> prefix ''model-node-not-found-in-parent'' msg"
proof -
  from assms(2) have "indexOf (children (h p)) n = None" by (simp add: indexOf_None)
  with assms(1) have "index h n = Inl (CKEditorError not_found_in_parent)"
    and "startOffset h n = Inl (CKEditorError not_found_in_parent)"
    by (simp_all add: index_def startOffset_def getChildStartOffset_def getChildIndex_def)
  moreover have "prefix ''model-node-not-found-in-parent'' not_found_in_parent"
    by (simp add: not_found_in_parent_def)
  ultimately show ?thesis by blast
qed

theorem not_in_parent_throws_witness:
  "parent (broken_tree 1) = Some 0 \<and> 1 \<notin> set (children (broken_tree 0))
   \<and> (\<exists>msg. index broken_tree 1 = Inl (CKEditorError msg)
          \<and> startOffset broken_tree 1 = Inl (CKEditorError msg)
          \<and> prefix ''model-node-not-found-in-parent'' msg)"
proof -
  have p: "parent (broken_tree 1) = Some 0" by (simp add: broken_tree_def elem_def)
  have c: "1 \<notin> set (children (broken_tree 0))" by (simp add: broken_tree_def elem_def)
  from not_in_parent_throws[of broken_tree 1 0] p c show ?thesis by blast
qed

section \<open>Parent chains\<close>

lemma depth_of_fun: "depth_of h n d \<Longrightarrow> depth_of h n d' \<Longrightarrow> d = d'"
proof (induction arbitrary: d' rule: depth_of.induct)
  case (at_root h n)
  then show ?case by (auto elim: depth_of.cases)
next
  case (below h n p d)
  from below.prems below.hyps(1) obtain e where "d' = Suc e" "depth_of h p e"
    by (auto elim: depth_of.cases)
  with below.IH show ?case by simp
qed

lemma root_depth: "depth_of h n d \<Longrightarrow> root h n = Some (last (ancestry h n d))"
proof (induction rule: depth_of.induct)
  case (at_root h n)
  then show ?case by (simp add: root_no_parent)
next
  case (below h n p d)
  have "ancestry h p d \<noteq> []" by (cases d) simp_all
  with below show ?case by (subst root.simps) simp
qed

lemma length_ancestry: "depth_of h n d \<Longrightarrow> length (ancestry h n d) = Suc d"
  by (induction rule: depth_of.induct) simp_all

lemma hd_ancestry: "hd (ancestry h n d) = n"
  by (cases d) simp_all

lemma getAncestors_loop_depth:
  "depth_of h n d \<Longrightarrow>
   getAncestors_loop h opts (Some n) acc =
     Some (if parentFirst opts then acc @ ancestry h n d else rev (ancestry h n d) @ acc)"
proof (induction arbitrary: acc rule: depth_of.induct)
  case (at_root h n)
  then show ?case
    by (subst getAncestors_loop.simps, subst getAncestors_loop.simps) simp
next
  case (below h n p d)
  then show ?case by (subst getAncestors_loop.simps) simp
qed

lemma getAncestors_loop_None: "getAncestors_loop h opts None acc = Some acc"
  by (subst getAncestors_loop.simps) simp

lemma depth_of_ancestry_nth:
  "depth_of h n d \<Longrightarrow> i \<le> d \<Longrightarrow> depth_of h (ancestry h n d ! i) (d - i)"
proof (induction arbitrary: i rule: depth_of.induct)
  case (at_root h n)
  then show ?case by (simp add: depth_of.at_root)
next
  case (below h n p d)
  show ?case
  proof (cases i)
    case 0
    with below show ?thesis by (simp add: depth_of.below)
  next
    case (Suc j)
    with below show ?thesis by simp
  qed
qed

lemma ancestry_nth_0: "ancestry h n d ! 0 = n"
  by (cases d) simp_all

lemma parent_ancestry_nth:
  "depth_of h n d \<Longrightarrow> i < d \<Longrightarrow>
   parent (h (ancestry h n d ! i)) = Some (ancestry h n d ! Suc i)"
proof (induction arbitrary: i rule: depth_of.induct)
  case (at_root h n)
  then show ?case by simp
next
  case (below h n p d)
  show ?case
  proof (cases i)
    case 0
    with below.hyps show ?thesis by (simp add: ancestry_nth_0)
  next
    case (Suc j)
    with below show ?thesis by simp
  qed
qed

lemma distinct_ancestry: "depth_of h n d \<Longrightarrow> distinct (ancestry h n d)"
proof (induction rule: depth_of.induct)
  case (at_root h n)
  then show ?case by simp
next
  case (below h n p d)
  have "n \<notin> set (ancestry h p d)"
  proof
    assume "n \<in> set (ancestry h p d)"
    then obtain i where i: "i < length (ancestry h p d)" "ancestry h p d ! i = n"
      by (auto simp: in_set_conv_nth)
    with below.hyps have "i \<le> d" by (simp add: length_ancestry)
    with depth_of_ancestry_nth[OF below.hyps(2), of i] i have "depth_of h n (d - i)" by simp
    moreover have "depth_of h n (Suc d)" using below.hyps by (rule depth_of.below)
    ultimately show False using depth_of_fun by fastforce
  qed
  with below show ?case by simp
qed

lemma doc_tree_depth_foo: "depth_of doc_tree 5 2"
proof -
  have "depth_of doc_tree 0 0"
    by (rule depth_of.at_root) (simp add: doc_tree_def elem_def)
  then have "depth_of doc_tree 2 (Suc 0)"
    by (rule depth_of.below[rotated]) (simp add: doc_tree_def elem_def)
  then have "depth_of doc_tree 5 (Suc (Suc 0))"
    by (rule depth_of.below[rotated]) (simp add: doc_tree_def textNode_def)
  then show ?thesis by (simp add: numeral_2_eq_2)
qed

section \<open>\<open>getAncestors\<close>\<close>

lemma getAncestors_depth:
  assumes "depth_of h n d"
  shows "getAncestors h opts n =
     Some (if parentFirst opts
           then (if includeSelf opts then ancestry h n d else tl (ancestry h n d))
           else rev (if includeSelf opts then ancestry h n d else tl (ancestry h n d)))"
proof (cases "includeSelf opts")
  case True
  with getAncestors_loop_depth[OF assms, of opts "[]"] show ?thesis
    by (simp add: getAncestors_def)
next
  case False
  from assms show ?thesis
  proof (cases rule: depth_of.cases)
    case at_root
    with False show ?thesis
      by (simp add: getAncestors_def getAncestors_loop_None)
  next
    case (below p e)
    with False getAncestors_loop_depth[OF below(3), of opts "[]"] show ?thesis
      by (simp add: getAncestors_def)
  qed
qed

text \<open>
  C4. For a node \<open>n\<close> at depth \<open>d\<close> below its root,
  \<open>getAncestors({includeSelf: true, parentFirst: true})\<close> returns exactly \<open>d + 1\<close> entries,
  \<open>n\<close> itself first and the root last. With the default options the result is the same
  chain from the root end without \<open>n\<close>: it has \<open>d\<close> entries, \<open>n\<close> is not among them, and the
  root is first (for \<open>d = 0\<close> the node is its own root and the result is empty).
\<close>

theorem getAncestors_self_first_root_last:
  assumes "depth_of h n d"
  shows "\<exists>as bs r.
           getAncestors h \<lparr>includeSelf = True, parentFirst = True\<rparr> n = Some as
         \<and> length as = d + 1 \<and> hd as = n \<and> last as = r \<and> root h n = Some r
         \<and> getAncestors h default_options n = Some bs
         \<and> bs @ [n] = rev as \<and> length bs = d \<and> n \<notin> set bs \<and> (0 < d \<longrightarrow> hd bs = r)"
proof -
  let ?as = "ancestry h n d"
  let ?bs = "rev (tl ?as)"
  have ne: "?as \<noteq> []" by (cases d) simp_all
  have as: "getAncestors h \<lparr>includeSelf = True, parentFirst = True\<rparr> n = Some ?as"
    using getAncestors_depth[OF assms] by simp
  have bs: "getAncestors h default_options n = Some ?bs"
    using getAncestors_depth[OF assms] by (simp add: default_options_def)
  have len: "length ?as = d + 1" using assms by (simp add: length_ancestry)
  have split: "?as = n # tl ?as" using ne hd_ancestry[of h n d] by (cases ?as) simp_all
  have "distinct ?as" using assms by (rule distinct_ancestry)
  then have notin: "n \<notin> set ?bs" using split by (metis distinct.simps(2) set_rev)
  have rv: "?bs @ [n] = rev ?as" using split by (metis rev.simps(2))
  have lb: "length ?bs = d" using len by simp
  have hdb: "0 < d \<longrightarrow> hd ?bs = last ?as"
  proof
    assume "0 < d"
    then have "tl ?as \<noteq> []" using len by (cases ?as) auto
    then show "hd ?bs = last ?as" using split by (metis hd_rev last_ConsR)
  qed
  show ?thesis
    using as bs len hd_ancestry[of h n d] root_depth[OF assms] rv lb notin hdb by blast
qed

theorem getAncestors_self_first_root_last_witness:
  "depth_of doc_tree 5 2
   \<and> getAncestors doc_tree \<lparr>includeSelf = True, parentFirst = True\<rparr> 5 = Some [5, 2, 0]
   \<and> getAncestors doc_tree default_options 5 = Some [0, 2]
   \<and> root doc_tree 5 = Some 0"
proof -
  have e: "getAncestors doc_tree \<lparr>includeSelf = True, parentFirst = True\<rparr> 5 = Some [5, 2, 0]"
    by (simp add: getAncestors_def getAncestors_loop.simps doc_tree_def elem_def textNode_def)
  from getAncestors_self_first_root_last[OF doc_tree_depth_foo] obtain as bs r where
    t: "getAncestors doc_tree \<lparr>includeSelf = True, parentFirst = True\<rparr> 5 = Some as"
       "last as = r" "root doc_tree 5 = Some r"
       "getAncestors doc_tree default_options 5 = Some bs" "bs @ [5] = rev as"
    by blast
  from t(1) e have as: "as = [5, 2, 0]" by simp
  with t(5) have "bs = [0, 2]" by simp
  with t as e doc_tree_depth_foo show ?thesis by simp
qed

section \<open>\<open>getPath\<close>\<close>

lemma read_all_snoc:
  "read_all (rs @ [r]) =
     (case r of
        Inl e \<Rightarrow> Inl e
      | Inr v \<Rightarrow> (case read_all rs of Inl e \<Rightarrow> Inl e | Inr vs \<Rightarrow> Inr (vs @ [v])))"
  by (induction rs) (auto split: sum.splits)

lemma read_all_map_Inr: "read_all (map Inr vs) = Inr vs"
  by (induction vs) simp_all

lemma read_all_Inr: "read_all rs = Inr vs \<longleftrightarrow> rs = map Inr vs"
proof
  show "read_all rs = Inr vs \<Longrightarrow> rs = map Inr vs"
    by (induction rs arbitrary: vs) (auto split: sum.splits)
next
  show "rs = map Inr vs \<Longrightarrow> read_all rs = Inr vs"
    by (simp add: read_all_map_Inr)
qed

lemma getPath_loop_depth:
  "depth_of h n d \<Longrightarrow>
   getPath_loop h n path =
     Some (case read_all (map (startOffset h) (rev (butlast (ancestry h n d)))) of
             Inl e \<Rightarrow> Inl e
           | Inr vs \<Rightarrow> Inr (vs @ path))"
proof (induction arbitrary: path rule: depth_of.induct)
  case (at_root h n)
  then show ?case by (subst getPath_loop.simps) simp
next
  case (below h n p d)
  have ne: "ancestry h p d \<noteq> []" by (cases d) simp_all
  show ?case
  proof (cases "startOffset h n")
    case (Inl e)
    with below.hyps ne show ?thesis
      by (subst getPath_loop.simps) (simp add: read_all_snoc)
  next
    case (Inr v)
    with below.hyps ne below.IH[of "v # path"] show ?thesis
      by (subst getPath_loop.simps) (simp add: read_all_snoc split: sum.splits)
  qed
qed

lemma all_Inr_map: "\<forall>m \<in> set ms. \<exists>v. f m = Inr v \<Longrightarrow> \<exists>vs. map f ms = map Inr vs"
proof (induction ms)
  case Nil
  then show ?case by simp
next
  case (Cons m ms)
  then obtain v vs where "f m = Inr v" "map f ms = map Inr vs" by auto
  then have "map f (m # ms) = map Inr (v # vs)" by simp
  then show ?case by blast
qed

text \<open>
  C3. For a node \<open>n\<close> at depth \<open>d\<close> below its root, \<open>getPath\<close> returns and its result is the
  sequence of the \<open>startOffset\<close> reads along the chain from the child of the root down to
  \<open>n\<close>, root end first: a path it returns has length \<open>d\<close> and holds exactly the values of
  \<open>startOffset\<close> of those nodes, all numbers; it throws only what one of those reads throws, and
  returns a path when every node of the chain is attached. For a node with no parent
  the path is empty.
\<close>

theorem getPath_startOffsets:
  assumes "depth_of h n d"
  shows "\<exists>chain.
           getAncestors h \<lparr>includeSelf = True, parentFirst = False\<rparr> n = Some chain
         \<and> getPath h n = Some (read_all (map (startOffset h) (tl chain)))
         \<and> (\<forall>path. getPath h n = Some (Inr path) \<longrightarrow>
               length path = d \<and> map (startOffset h) (tl chain) = map Inr path
             \<and> None \<notin> set path)
         \<and> ((\<forall>m \<in> set (tl chain). attached h m) \<longrightarrow> (\<exists>path. getPath h n = Some (Inr path)))
         \<and> (parent (h n) = None \<longrightarrow> getPath h n = Some (Inr []))"
proof -
  let ?chain = "rev (ancestry h n d)"
  let ?rs = "map (startOffset h) (tl ?chain)"
  have ne: "ancestry h n d \<noteq> []" by (cases d) simp_all
  have tl: "tl ?chain = rev (butlast (ancestry h n d))"
    using ne by (metis butlast_rev rev_rev_ident)
  have len: "length (tl ?chain) = d" using assms by (simp add: length_ancestry)
  have c: "getAncestors h \<lparr>includeSelf = True, parentFirst = False\<rparr> n = Some ?chain"
    using getAncestors_depth[OF assms] by simp
  have "getPath h n = Some (case read_all ?rs of Inl e \<Rightarrow> Inl e | Inr vs \<Rightarrow> Inr (vs @ []))"
    unfolding getPath_def tl by (rule getPath_loop_depth[OF assms])
  then have p: "getPath h n = Some (read_all ?rs)" by (simp split: sum.splits)
  have par: "parent (h m) \<noteq> None" if "m \<in> set (tl ?chain)" for m
  proof -
    from that have "m \<in> set (butlast (ancestry h n d))" by (simp only: tl set_rev)
    then obtain i where i: "i < length (butlast (ancestry h n d))"
      and m: "butlast (ancestry h n d) ! i = m"
      by (auto simp: in_set_conv_nth)
    from i assms have "i < d" by (simp add: length_ancestry)
    moreover from i m have "ancestry h n d ! i = m" by (simp add: nth_butlast)
    ultimately show ?thesis using parent_ancestry_nth[OF assms, of i] by simp
  qed
  have l: "\<forall>path. getPath h n = Some (Inr path) \<longrightarrow>
             length path = d \<and> ?rs = map Inr path \<and> None \<notin> set path"
  proof (intro allI impI)
    fix path assume "getPath h n = Some (Inr path)"
    with p have "read_all ?rs = Inr path" by simp
    then have rs: "?rs = map Inr path" by (simp only: read_all_Inr)
    from rs have "length ?rs = length path" by (metis length_map)
    moreover have "length ?rs = d" using len by (simp only: length_map)
    ultimately have lp: "length path = d" by simp
    have "None \<notin> set path"
    proof
      assume "None \<in> set path"
      then obtain i where i: "i < length path" and v: "path ! i = None"
        by (auto simp: in_set_conv_nth)
      from i lp len have it: "i < length (tl ?chain)" by simp
      from rs have "?rs ! i = map Inr path ! i" by simp
      with i it v have "startOffset h (tl ?chain ! i) = Inr None" by simp
      then have "parent (h (tl ?chain ! i)) = None" by (rule startOffset_null)
      moreover from it have "tl ?chain ! i \<in> set (tl ?chain)" by (rule nth_mem)
      ultimately show False using par by blast
    qed
    with lp rs show "length path = d \<and> ?rs = map Inr path \<and> None \<notin> set path"
      by (intro conjI)
  qed
  have a: "(\<forall>m \<in> set (tl ?chain). attached h m) \<longrightarrow> (\<exists>path. getPath h n = Some (Inr path))"
  proof
    assume att: "\<forall>m \<in> set (tl ?chain). attached h m"
    have "\<forall>m \<in> set (tl ?chain). \<exists>v. startOffset h m = Inr v"
    proof
      fix m assume m: "m \<in> set (tl ?chain)"
      show "\<exists>v. startOffset h m = Inr v"
      proof (cases "parent (h m)")
        case None
        then show ?thesis by (simp add: startOffset_def)
      next
        case (Some q)
        from att m have "attached h m" by blast
        with Some have "m \<in> set (children (h q))" by (simp add: attached_def)
        with Some show ?thesis by (rule startOffset_attached)
      qed
    qed
    then have "\<exists>vs. ?rs = map Inr vs" by (rule all_Inr_map)
    then show "\<exists>path. getPath h n = Some (Inr path)" using p read_all_Inr by metis
  qed
  have r: "parent (h n) = None \<longrightarrow> getPath h n = Some (Inr [])"
    by (simp add: getPath_def getPath_loop.simps)
  show ?thesis by (intro exI[of _ ?chain] conjI c p l a r)
qed

theorem getPath_startOffsets_witness:
  "depth_of doc_tree 5 2
   \<and> getAncestors doc_tree \<lparr>includeSelf = True, parentFirst = False\<rparr> 5 = Some [0, 2, 5]
   \<and> attached doc_tree 2 \<and> attached doc_tree 5
   \<and> getPath doc_tree 5 = Some (Inr [Some 1, Some 3])"
proof -
  have e: "getAncestors doc_tree \<lparr>includeSelf = True, parentFirst = False\<rparr> 5 = Some [0, 2, 5]"
    by (simp add: getAncestors_def getAncestors_loop.simps doc_tree_def elem_def textNode_def)
  have a: "attached doc_tree 2" "attached doc_tree 5"
    by (simp_all add: attached_def doc_tree_def elem_def textNode_def)
  have s: "startOffset doc_tree 2 = Inr (Some 1)" "startOffset doc_tree 5 = Inr (Some 3)"
    by (simp_all add: startOffset_def getChildStartOffset_def getChildIndex_def offsetSize_def
        doc_tree_def elem_def textNode_def)
  from getPath_startOffsets[OF doc_tree_depth_foo] obtain chain where
    t: "getAncestors doc_tree \<lparr>includeSelf = True, parentFirst = False\<rparr> 5 = Some chain"
       "getPath doc_tree 5 = Some (read_all (map (startOffset doc_tree) (tl chain)))"
    by blast
  from t(1) e have "chain = [0, 2, 5]" by simp
  with t(2) s have "getPath doc_tree 5 = Some (Inr [Some 1, Some 3])" by simp
  with e a doc_tree_depth_foo show ?thesis by (intro conjI)
qed

section \<open>\<open>getCommonAncestor\<close>\<close>

lemma common_loop_props:
  "i \<le> length A \<Longrightarrow> i \<le> length B \<Longrightarrow> (\<forall>j<i. A ! j = B ! j) \<Longrightarrow>
   i \<le> common_loop A B i \<and> common_loop A B i \<le> length A \<and> common_loop A B i \<le> length B
   \<and> (\<forall>j<common_loop A B i. A ! j = B ! j)
   \<and> \<not> (common_loop A B i < length A \<and> common_loop A B i < length B
          \<and> A ! common_loop A B i = B ! common_loop A B i)"
proof (induction A B i rule: common_loop.induct)
  case (1 A B i)
  show ?case
  proof (cases "at A i = at B i \<and> at A i \<noteq> None")
    case True
    then have in_range: "i < length A" "i < length B" and same: "A ! i = B ! i"
      by (auto simp: at_def split: if_splits)
    have step: "common_loop A B i = common_loop A B (i + 1)"
      by (subst common_loop.simps) (rule if_P[OF True])
    have "\<forall>j<i + 1. A ! j = B ! j" using "1.prems"(3) same by (auto simp: less_Suc_eq)
    with "1.IH"[OF True] in_range have
      "i + 1 \<le> common_loop A B (i + 1) \<and> common_loop A B (i + 1) \<le> length A
       \<and> common_loop A B (i + 1) \<le> length B
       \<and> (\<forall>j<common_loop A B (i + 1). A ! j = B ! j)
       \<and> \<not> (common_loop A B (i + 1) < length A \<and> common_loop A B (i + 1) < length B
              \<and> A ! common_loop A B (i + 1) = B ! common_loop A B (i + 1))"
      by simp
    then show ?thesis unfolding step by simp
  next
    case False
    have stop: "common_loop A B i = i"
      by (subst common_loop.simps) (rule if_not_P[OF False])
    from False have "\<not> (i < length A \<and> i < length B \<and> A ! i = B ! i)"
      by (auto simp: at_def)
    with "1.prems" show ?thesis unfolding stop by simp
  qed
qed

lemma root_path_rev_ancestry:
  assumes "depth_of h n d"
  shows "root_path h (rev (ancestry h n d))"
proof -
  let ?xs = "ancestry h n d"
  have len: "length ?xs = Suc d" using assms by (rule length_ancestry)
  have "depth_of h (rev ?xs ! j) j" if "j < length (rev ?xs)" for j
  proof -
    from that len have j: "j \<le> d" by simp
    then have "rev ?xs ! j = ?xs ! (d - j)" using len by (simp add: rev_nth)
    moreover have "depth_of h (?xs ! (d - j)) (d - (d - j))"
      by (rule depth_of_ancestry_nth[OF assms]) simp
    ultimately show ?thesis using j by simp
  qed
  moreover have "parent (h (rev ?xs ! Suc j)) = Some (rev ?xs ! j)" if "j < length (rev ?xs) - 1" for j
  proof -
    from that len have j: "Suc j \<le> d" by simp
    then have a: "rev ?xs ! Suc j = ?xs ! (d - Suc j)" and b: "rev ?xs ! j = ?xs ! (d - j)"
      using len by (simp_all add: rev_nth)
    have "parent (h (?xs ! (d - Suc j))) = Some (?xs ! Suc (d - Suc j))"
      by (rule parent_ancestry_nth[OF assms]) (use j in simp)
    moreover have "Suc (d - Suc j) = d - j" using j by simp
    ultimately show ?thesis using a b by simp
  qed
  ultimately show ?thesis by (simp add: root_path_def)
qed

lemma root_path_butlast: "root_path h xs \<Longrightarrow> root_path h (butlast xs)"
  by (simp add: root_path_def nth_butlast)

lemma getAncestors_root_path:
  assumes "depth_of h n d" and "\<not> parentFirst opts"
  shows "\<exists>A. getAncestors h opts n = Some A \<and> root_path h A"
proof -
  have full: "root_path h (rev (ancestry h n d))"
    using assms(1) by (rule root_path_rev_ancestry)
  have "rev (tl (ancestry h n d)) = butlast (rev (ancestry h n d))"
    by (simp only: butlast_rev)
  with root_path_butlast[OF full] have part: "root_path h (rev (tl (ancestry h n d)))"
    by (simp only:)
  show ?thesis
  proof (cases "includeSelf opts")
    case True
    with getAncestors_depth[OF assms(1), of opts] assms(2)
    have "getAncestors h opts n = Some (rev (ancestry h n d))" by (simp only: if_True if_False)
    with full show ?thesis by (intro exI conjI)
  next
    case False
    with getAncestors_depth[OF assms(1), of opts] assms(2)
    have "getAncestors h opts n = Some (rev (tl (ancestry h n d)))" by (simp only: if_True if_False)
    with part show ?thesis by (intro exI conjI)
  qed
qed

lemma root_path_meet:
  assumes A: "root_path h A" and B: "root_path h B"
    and j: "j < length A" and i: "i < length B" and eq: "A ! j = B ! i"
  shows "i = j \<and> (\<forall>m\<le>j. A ! m = B ! m)"
proof -
  from A j have "depth_of h (A ! j) j" by (simp add: root_path_def)
  moreover from B i have "depth_of h (B ! i) i" by (simp add: root_path_def)
  ultimately have ij: "i = j" using eq depth_of_fun by fastforce
  have "m \<le> j \<Longrightarrow> A ! (j - m) = B ! (j - m)" for m
  proof (induction m)
    case 0
    with eq ij show ?case by simp
  next
    case (Suc m)
    then have s: "Suc (j - Suc m) = j - m" and lt: "j - m < length A" "j - m < length B"
      using j i ij by simp_all
    from lt s have "j - Suc m < length A - 1" "j - Suc m < length B - 1" by linarith+
    with A B have "parent (h (A ! Suc (j - Suc m))) = Some (A ! (j - Suc m))"
      and "parent (h (B ! Suc (j - Suc m))) = Some (B ! (j - Suc m))"
      by (simp_all add: root_path_def)
    with s have "parent (h (A ! (j - m))) = Some (A ! (j - Suc m))"
      and "parent (h (B ! (j - m))) = Some (B ! (j - Suc m))"
      by simp_all
    moreover from Suc have "A ! (j - m) = B ! (j - m)" by simp
    ultimately show ?case by simp
  qed
  then have "\<forall>m\<le>j. A ! m = B ! m"
    by (metis diff_diff_cancel diff_le_self)
  with ij show ?thesis by simp
qed

lemma common_loop_root_paths:
  assumes A: "root_path h A" and B: "root_path h B"
  shows "(set A \<inter> set B = {} \<longrightarrow> common_loop A B 0 = 0)
       \<and> (set A \<inter> set B \<noteq> {} \<longrightarrow>
            0 < common_loop A B 0 \<and> common_loop A B 0 \<le> length A
          \<and> A ! (common_loop A B 0 - 1) \<in> set A \<inter> set B
          \<and> depth_of h (A ! (common_loop A B 0 - 1)) (common_loop A B 0 - 1)
          \<and> (\<forall>x \<in> set A \<inter> set B. \<exists>dx\<le>common_loop A B 0 - 1. depth_of h x dx))"
proof -
  let ?k = "common_loop A B 0"
  from common_loop_props[of 0 A B] have
    kA: "?k \<le> length A" and kB: "?k \<le> length B" and pre: "\<forall>j<?k. A ! j = B ! j"
    and stop: "\<not> (?k < length A \<and> ?k < length B \<and> A ! ?k = B ! ?k)"
    by simp_all
  have last_common: "A ! (?k - 1) \<in> set A \<inter> set B" if "0 < ?k"
  proof -
    from that kA kB have "?k - 1 < length A" "?k - 1 < length B" by simp_all
    moreover from that pre have "A ! (?k - 1) = B ! (?k - 1)" by simp
    ultimately show ?thesis by (metis IntI nth_mem)
  qed
  have below_k: "\<exists>dx\<le>?k - 1. depth_of h x dx \<and> 0 < ?k" if "x \<in> set A \<inter> set B" for x
  proof -
    from that obtain j i where j: "j < length A" "A ! j = x" and i: "i < length B" "B ! i = x"
      by (auto simp: in_set_conv_nth)
    from root_path_meet[OF A B j(1) i(1)] j(2) i(2) have ij: "i = j" and m: "\<forall>m\<le>j. A ! m = B ! m"
      by simp_all
    have "j < ?k"
    proof (rule ccontr)
      assume "\<not> j < ?k"
      then have "?k \<le> j" by simp
      with j(1) i(1) ij m have "?k < length A \<and> ?k < length B \<and> A ! ?k = B ! ?k" by simp
      with stop show False by simp
    qed
    moreover from A j have "depth_of h x j" by (auto simp: root_path_def)
    ultimately show ?thesis by (intro exI[of _ j]) simp
  qed
  have empty: "set A \<inter> set B = {} \<longrightarrow> ?k = 0"
    using last_common by fastforce
  have nonempty: "set A \<inter> set B \<noteq> {} \<longrightarrow>
      0 < ?k \<and> ?k \<le> length A \<and> A ! (?k - 1) \<in> set A \<inter> set B
      \<and> depth_of h (A ! (?k - 1)) (?k - 1)
      \<and> (\<forall>x \<in> set A \<inter> set B. \<exists>dx\<le>?k - 1. depth_of h x dx)"
  proof
    assume "set A \<inter> set B \<noteq> {}"
    then obtain x where x: "x \<in> set A \<inter> set B" by blast
    from below_k[OF x] have pos: "0 < ?k" by blast
    with kA have "?k - 1 < length A" by simp
    with A have d: "depth_of h (A ! (?k - 1)) (?k - 1)" by (simp add: root_path_def)
    have all: "\<forall>x \<in> set A \<inter> set B. \<exists>dx\<le>?k - 1. depth_of h x dx"
      using below_k by blast
    from pos kA last_common[OF pos] d all
    show "0 < ?k \<and> ?k \<le> length A \<and> A ! (?k - 1) \<in> set A \<inter> set B
      \<and> depth_of h (A ! (?k - 1)) (?k - 1)
      \<and> (\<forall>x \<in> set A \<inter> set B. \<exists>dx\<le>?k - 1. depth_of h x dx)"
      by (intro conjI)
  qed
  from empty nonempty show ?thesis by (rule conjI)
qed

lemma root_ancestry:
  "depth_of h n d \<Longrightarrow> x \<in> set (ancestry h n d) \<Longrightarrow> root h x = root h n"
proof (induction rule: depth_of.induct)
  case (at_root h n)
  then show ?case by simp
next
  case (below h n p d)
  have step: "root h n = root h p" using below.hyps(1) by (subst root.simps) simp
  from below.prems below.hyps(1) have "x = n \<or> x \<in> set (ancestry h p d)" by simp
  then show ?case using below.IH step by auto
qed

lemma getAncestors_chain:
  assumes "depth_of h n d"
  shows "\<exists>A. getAncestors h opts n = Some A \<and> set A \<subseteq> set (ancestry h n d)
            \<and> (A \<noteq> [] \<longrightarrow> last (ancestry h n d) \<in> set A)"
proof -
  let ?xs = "ancestry h n d"
  let ?base = "if includeSelf opts then ?xs else tl ?xs"
  have ne: "?xs \<noteq> []" by (cases d) simp_all
  have sub: "set ?base \<subseteq> set ?xs" by (auto dest: list.set_sel(2)[OF ne])
  have "last ?xs \<in> set (tl ?xs)" if "tl ?xs \<noteq> []"
    using that last_in_set[OF that] by (simp add: last_tl)
  then have lst: "?base \<noteq> [] \<longrightarrow> last ?xs \<in> set ?base"
    using ne by simp
  show ?thesis
  proof (cases "parentFirst opts")
    case True
    with getAncestors_depth[OF assms, of opts] have "getAncestors h opts n = Some ?base"
      by (simp only: if_True)
    with sub lst show ?thesis by (intro exI conjI)
  next
    case False
    with getAncestors_depth[OF assms, of opts] have "getAncestors h opts n = Some (rev ?base)"
      by (simp only: if_False)
    moreover from sub have "set (rev ?base) \<subseteq> set ?xs" by (simp only: set_rev)
    moreover from lst have "rev ?base \<noteq> [] \<longrightarrow> last ?xs \<in> set (rev ?base)"
      by (simp only: set_rev rev_is_Nil_conv)
    ultimately show ?thesis by (intro exI conjI)
  qed
qed

lemma common_loop_differ_at_0:
  assumes "A = [] \<or> B = [] \<or> hd A \<noteq> hd B"
  shows "common_loop A B 0 = 0"
proof -
  from assms have "\<not> (at A 0 = at B 0 \<and> at A 0 \<noteq> None)"
    by (cases A; cases B) (auto simp: at_def)
  then show ?thesis by (subst common_loop.simps) (rule if_not_P)
qed

text \<open>
  C5. For two nodes \<open>a\<close> and \<open>b\<close> of finite depth, \<open>a.getCommonAncestor(b, options)\<close> returns
  and never throws. With the documented options (\<open>includeSelf\<close> alone, so \<open>parentFirst\<close> is
  not set) the result is the deepest node that occurs in both ancestor chains, as
  \<open>getAncestors\<close> gives them under the same options, and \<open>null\<close> when no node occurs in both.
  Under the same root two chains that are not empty share the root, so the result is a
  node. For two nodes with different roots the result is \<open>null\<close>, whatever the options.
\<close>

theorem getCommonAncestor_deepest:
  assumes "depth_of h a da" and "depth_of h b db"
  shows "\<exists>A B. getAncestors h opts a = Some A \<and> getAncestors h opts b = Some B
       \<and> (\<not> parentFirst opts \<longrightarrow>
            (if set A \<inter> set B = {} then getCommonAncestor h a b opts = Some None
             else \<exists>c dc. getCommonAncestor h a b opts = Some (Some c)
                    \<and> c \<in> set A \<inter> set B \<and> depth_of h c dc
                    \<and> (\<forall>x \<in> set A \<inter> set B. \<exists>dx\<le>dc. depth_of h x dx)))
       \<and> (root h a = root h b \<and> A \<noteq> [] \<and> B \<noteq> [] \<longrightarrow> set A \<inter> set B \<noteq> {})
       \<and> (root h a \<noteq> root h b \<longrightarrow> getCommonAncestor h a b opts = Some None)"
proof -
  from getAncestors_chain[OF assms(1), of opts] obtain A where
    A: "getAncestors h opts a = Some A" and subA: "set A \<subseteq> set (ancestry h a da)"
    and lastA: "A \<noteq> [] \<longrightarrow> last (ancestry h a da) \<in> set A" by blast
  from getAncestors_chain[OF assms(2), of opts] obtain B where
    B: "getAncestors h opts b = Some B" and subB: "set B \<subseteq> set (ancestry h b db)"
    and lastB: "B \<noteq> [] \<longrightarrow> last (ancestry h b db) \<in> set B" by blast
  let ?k = "common_loop A B 0"
  have res: "getCommonAncestor h a b opts = Some (if ?k = 0 then None else at A (?k - 1))"
    by (simp add: getCommonAncestor_def A B)
  have deepest: "\<not> parentFirst opts \<longrightarrow>
      (if set A \<inter> set B = {} then getCommonAncestor h a b opts = Some None
       else \<exists>c dc. getCommonAncestor h a b opts = Some (Some c)
              \<and> c \<in> set A \<inter> set B \<and> depth_of h c dc
              \<and> (\<forall>x \<in> set A \<inter> set B. \<exists>dx\<le>dc. depth_of h x dx))"
  proof
    assume npf: "\<not> parentFirst opts"
    from getAncestors_root_path[OF assms(1) npf] A have rpA: "root_path h A" by simp
    from getAncestors_root_path[OF assms(2) npf] B have rpB: "root_path h B" by simp
    note k = common_loop_root_paths[OF rpA rpB]
    show "if set A \<inter> set B = {} then getCommonAncestor h a b opts = Some None
       else \<exists>c dc. getCommonAncestor h a b opts = Some (Some c)
              \<and> c \<in> set A \<inter> set B \<and> depth_of h c dc
              \<and> (\<forall>x \<in> set A \<inter> set B. \<exists>dx\<le>dc. depth_of h x dx)"
    proof (cases "set A \<inter> set B = {}")
      case True
      with k have "?k = 0" by blast
      with res True show ?thesis by simp
    next
      case False
      with k have pos: "0 < ?k" and le: "?k \<le> length A"
        and mem: "A ! (?k - 1) \<in> set A \<inter> set B"
        and dep: "depth_of h (A ! (?k - 1)) (?k - 1)"
        and all: "\<forall>x \<in> set A \<inter> set B. \<exists>dx\<le>?k - 1. depth_of h x dx"
        by blast+
      from pos le have "at A (?k - 1) = Some (A ! (?k - 1))" by (simp add: at_def)
      with res pos have "getCommonAncestor h a b opts = Some (Some (A ! (?k - 1)))" by simp
      with mem dep all have "\<exists>c dc. getCommonAncestor h a b opts = Some (Some c)
              \<and> c \<in> set A \<inter> set B \<and> depth_of h c dc
              \<and> (\<forall>x \<in> set A \<inter> set B. \<exists>dx\<le>dc. depth_of h x dx)"
        by (intro exI conjI)
      with False show ?thesis by (simp only: if_False)
    qed
  qed
  have ra: "root h a = Some (last (ancestry h a da))" using assms(1) by (rule root_depth)
  have rb: "root h b = Some (last (ancestry h b db))" using assms(2) by (rule root_depth)
  have same: "root h a = root h b \<and> A \<noteq> [] \<and> B \<noteq> [] \<longrightarrow> set A \<inter> set B \<noteq> {}"
    using ra rb lastA lastB by auto
  have disjoint: "root h a \<noteq> root h b \<longrightarrow> getCommonAncestor h a b opts = Some None"
  proof
    assume diff: "root h a \<noteq> root h b"
    have "set A \<inter> set B = {}"
    proof (rule ccontr)
      assume "set A \<inter> set B \<noteq> {}"
      then obtain x where "x \<in> set A" "x \<in> set B" by blast
      with subA subB have "x \<in> set (ancestry h a da)" "x \<in> set (ancestry h b db)" by blast+
      with root_ancestry[OF assms(1)] root_ancestry[OF assms(2)] have "root h a = root h b"
        by metis
      with diff show False by simp
    qed
    then have "A = [] \<or> B = [] \<or> hd A \<noteq> hd B"
      by (metis disjoint_iff hd_in_set)
    then have "?k = 0" by (rule common_loop_differ_at_0)
    with res show "getCommonAncestor h a b opts = Some None" by simp
  qed
  from A B deepest same disjoint show ?thesis by (intro exI conjI)
qed

lemma doc_tree_depth_header: "depth_of doc_tree 3 2"
proof -
  have "depth_of doc_tree 0 0"
    by (rule depth_of.at_root) (simp add: doc_tree_def elem_def)
  then have "depth_of doc_tree 1 (Suc 0)"
    by (rule depth_of.below[rotated]) (simp add: doc_tree_def elem_def)
  then have "depth_of doc_tree 3 (Suc (Suc 0))"
    by (rule depth_of.below[rotated]) (simp add: doc_tree_def textNode_def)
  then show ?thesis by (simp add: numeral_2_eq_2)
qed

theorem getCommonAncestor_deepest_witness:
  "depth_of doc_tree 5 2 \<and> depth_of doc_tree 3 2 \<and> \<not> parentFirst default_options
   \<and> root doc_tree 5 = root doc_tree 3
   \<and> getAncestors doc_tree default_options 5 = Some [0, 2]
   \<and> getAncestors doc_tree default_options 3 = Some [0, 1]
   \<and> set [0, 2] \<inter> set [0, 1::nat] \<noteq> {}
   \<and> getCommonAncestor doc_tree 5 3 default_options = Some (Some 0)"
proof -
  have A: "getAncestors doc_tree default_options 5 = Some [0, 2]"
    by (simp add: getAncestors_def getAncestors_loop.simps default_options_def doc_tree_def
        elem_def textNode_def)
  have B: "getAncestors doc_tree default_options 3 = Some [0, 1]"
    by (simp add: getAncestors_def getAncestors_loop.simps default_options_def doc_tree_def
        elem_def textNode_def)
  have npf: "\<not> parentFirst default_options" by (simp add: default_options_def)
  have ne: "set [0, 2] \<inter> set [0, 1::nat] \<noteq> {}" by simp
  have r: "root doc_tree 5 = root doc_tree 3"
    by (simp add: root.simps doc_tree_def elem_def textNode_def)
  from getCommonAncestor_deepest[OF doc_tree_depth_foo doc_tree_depth_header, of default_options]
    A B npf ne
  obtain c dc where c: "getCommonAncestor doc_tree 5 3 default_options = Some (Some c)"
    "c \<in> set [0, 2] \<inter> set [0, 1::nat]"
    by auto
  from c(2) have "c = 0" by simp
  with c(1) A B npf ne r doc_tree_depth_foo doc_tree_depth_header show ?thesis by simp
qed

text \<open>
  C6. For two nodes \<open>a\<close> and \<open>b\<close> without parent, \<open>getCommonAncestor\<close> returns \<open>null\<close> when
  \<open>includeSelf\<close> is false, also for \<open>a\<close> with itself; for \<open>a\<close> with itself and \<open>includeSelf\<close>
  true it returns \<open>a\<close>.
\<close>

theorem getCommonAncestor_of_roots:
  assumes "parent (h a) = None" and "parent (h b) = None"
  shows "(\<not> includeSelf opts \<longrightarrow> getCommonAncestor h a b opts = Some None)
       \<and> (\<not> includeSelf opts \<longrightarrow> getCommonAncestor h a a opts = Some None)
       \<and> (includeSelf opts \<longrightarrow> getCommonAncestor h a a opts = Some (Some a))"
proof -
  have none: "getAncestors h opts r = Some []" if "parent (h r) = None" "\<not> includeSelf opts" for r
    using that by (simp add: getAncestors_def getAncestors_loop_None)
  have self: "getAncestors h opts r = Some [r]" if "parent (h r) = None" "includeSelf opts" for r
    using that by (simp add: getAncestors_def getAncestors_loop.simps)
  have k0: "common_loop [] [] 0 = 0"
    by (rule common_loop_differ_at_0) simp
  have k1: "common_loop [a] [a] 0 = 1"
    by (simp add: common_loop.simps at_def)
  show ?thesis
    using assms none[of a] none[of b] self[of a] k0 k1
    by (simp add: getCommonAncestor_def at_def)
qed

theorem getCommonAncestor_of_roots_witness:
  "parent (doc_tree 0) = None \<and> parent (doc_tree 6) = None
   \<and> getCommonAncestor doc_tree 0 6 default_options = Some None
   \<and> getCommonAncestor doc_tree 0 0 default_options = Some None
   \<and> getCommonAncestor doc_tree 0 0 \<lparr>includeSelf = True, parentFirst = False\<rparr> = Some (Some 0)"
proof -
  have p: "parent (doc_tree 0) = None" "parent (doc_tree 6) = None"
    by (simp_all add: doc_tree_def elem_def Node_def)
  from getCommonAncestor_of_roots[of doc_tree 0 6 default_options]
    getCommonAncestor_of_roots[of doc_tree 0 6 "\<lparr>includeSelf = True, parentFirst = False\<rparr>"] p
  show ?thesis by (simp add: default_options_def)
qed

text \<open>
  The options are handed on to \<open>getAncestors\<close> unchanged. An options object that sets the
  undocumented \<open>parentFirst\<close> makes the chains start at the nodes' parents, and the loop
  then compares them from that end: for the two texts of \<open>p\<close> in the example tree the
  result is the root \<open>div\<close> instead of \<open>p\<close>.
\<close>

lemma getCommonAncestor_parentFirst_example:
  "getCommonAncestor doc_tree 4 5 \<lparr>includeSelf = False, parentFirst = False\<rparr> = Some (Some 2)
   \<and> getCommonAncestor doc_tree 4 5 \<lparr>includeSelf = False, parentFirst = True\<rparr> = Some (Some 0)"
  by (simp add: getCommonAncestor_def getAncestors_def getAncestors_loop.simps doc_tree_def
      elem_def textNode_def common_loop.simps at_def)

section \<open>Attributes\<close>

lemma Map_has_keys: "Map_has m k \<longleftrightarrow> k \<in> fst ` set m"
  by (induction m k rule: Map_has.induct) auto

lemma Map_has_set: "Map_has (Map_set m k v) k"
  by (induction m k v rule: Map_set.induct) auto

lemma Map_get_set: "Map_get (Map_set m k v) k = v"
  by (induction m k v rule: Map_set.induct) auto

text \<open>
  C10. \<open>hasAttribute(k)\<close> is true exactly when \<open>k\<close> is a key of an entry of
  \<open>getAttributes()\<close>, whatever the value: after \<open>_setAttribute(k, v)\<close> the key is present and
  \<open>getAttribute(k)\<close> is \<open>v\<close>; for \<open>v = undefined\<close> the key is present although
  \<open>getAttribute(k)\<close> is \<open>undefined\<close>.
\<close>

theorem hasAttribute_iff_key:
  "hasAttribute h n k = (k \<in> set (map fst (getAttributes h n)))
   \<and> hasAttribute (setAttribute h n k v) n k \<and> getAttribute (setAttribute h n k v) n k = v
   \<and> hasAttribute (setAttribute h n k Undefined) n k
   \<and> getAttribute (setAttribute h n k Undefined) n k = Undefined"
proof -
  have "hasAttribute h n k = (k \<in> set (map fst (getAttributes h n)))"
    by (simp add: hasAttribute_def getAttributes_def Map_has_keys)
  moreover have "\<And>w. hasAttribute (setAttribute h n k w) n k"
    by (simp add: hasAttribute_def setAttribute_def Map_has_set)
  moreover have "\<And>w. getAttribute (setAttribute h n k w) n k = w"
    by (simp add: getAttribute_def setAttribute_def Map_get_set)
  ultimately show ?thesis by simp
qed

lemma Map_set_fresh: "k \<notin> set (map fst m) \<Longrightarrow> Map_set m k v = m @ [(k, v)]"
  by (induction m k v rule: Map_set.induct) auto

lemma keys_Map_set: "set (map fst (Map_set m k v)) = insert k (set (map fst m))"
  by (induction m k v rule: Map_set.induct) auto

lemma distinct_keys_Map_set: "distinct (map fst m) \<Longrightarrow> distinct (map fst (Map_set m k v))"
proof (induction m k v rule: Map_set.induct)
  case (1 k v)
  then show ?case by simp
next
  case (2 k' v' m k v)
  then show ?case using keys_Map_set[of m k v] by auto
qed

lemma distinct_keys_fold:
  "distinct (map fst acc) \<Longrightarrow> distinct (map fst (fold (\<lambda>(k, v) m. Map_set m k v) ps acc))"
  by (induction ps arbitrary: acc) (auto simp: distinct_keys_Map_set)

lemma distinct_keys_toMap: "distinct (map fst (toMap a))"
  by (cases a) (simp_all add: toMap_def distinct_keys_fold)

lemma fold_Map_set_distinct:
  "distinct (map fst (acc @ ps)) \<Longrightarrow> fold (\<lambda>(k, v) m. Map_set m k v) ps acc = acc @ ps"
proof (induction ps arbitrary: acc)
  case Nil
  then show ?case by simp
next
  case (Cons p ps)
  obtain k v where p: "p = (k, v)" by (cases p)
  from Cons.prems p have fresh: "k \<notin> set (map fst acc)" by auto
  from Cons.prems p have "distinct (map fst ((acc @ [(k, v)]) @ ps))" by simp
  from Cons.IH[OF this] p fresh show ?case by (simp add: Map_set_fresh)
qed

lemma toMap_entries: "distinct (map fst m) \<Longrightarrow> toMap (Some m) = m"
  using fold_Map_set_distinct[of "[]" m] by (simp add: toMap_def)

text \<open>
  C7. \<open>toJSON\<close> has the key \<open>attributes\<close>, with the list of the node's entries, exactly when
  the node has at least one attribute. A node constructed from what \<open>toJSON\<close> gives under
  that key has the same attribute map (the keys of a \<open>Map\<close> are distinct).
\<close>

theorem toJSON_roundtrip:
  "attributes (toJSON h n) = (if getAttributes h n = [] then None else Some (getAttributes h n))
   \<and> (distinct (map fst (attrs (h n))) \<longrightarrow> attrs (Node (attributes (toJSON h n))) = attrs (h n))"
  by (simp add: toJSON_def getAttributes_def Node_def toMap_entries) (simp add: toMap_def)

theorem toJSON_roundtrip_witness:
  "distinct (map fst (attrs (attr_store 0)))
   \<and> attributes (toJSON attr_store 0) = Some [(''bold'', Bool True), (''linkHref'', Str ''x'')]
   \<and> attrs (Node (attributes (toJSON attr_store 0))) = attrs (attr_store 0)"
proof -
  have a: "attrs (attr_store 0) = [(''bold'', Bool True), (''linkHref'', Str ''x'')]"
    by (simp add: attr_store_def Node_def toMap_def)
  have d: "distinct (map fst (attrs (attr_store 0)))" by (simp add: a)
  note t = toJSON_roundtrip[of attr_store 0]
  have r: "attrs (Node (attributes (toJSON attr_store 0))) = attrs (attr_store 0)"
    using t d by blast
  have "getAttributes attr_store 0 \<noteq> []" by (simp add: getAttributes_def a)
  with t have j: "attributes (toJSON attr_store 0) = Some (getAttributes attr_store 0)"
    by presburger
  from j a have "attributes (toJSON attr_store 0) = Some [(''bold'', Bool True), (''linkHref'', Str ''x'')]"
    by (simp add: getAttributes_def)
  with d r show ?thesis by (intro conjI)
qed

end
